theory Spec2Isabelle
  imports Main "HOL-Library.Sublist"
begin

section \<open>pocket\_dedupe: a shallow embedding of \<^verbatim>\<open>pocket_dedupe.py\<close>\<close>

text \<open>
  Python strings are modelled as \<^typ>\<open>string\<close>, each \<^typ>\<open>char\<close> read as the code point
  of the same number (so the strings of the model are the Python strings over the code
  points below 256). Substring search compares code points one by one, so nothing in
  the search depends on that bound.
\<close>

subsection \<open>The tracker markers\<close>

text \<open>\<^verbatim>\<open>STRIP_PARAMETERS\<close>, lines 24 to 29, in the order of the source.\<close>

definition STRIP_PARAMETERS :: "string list" where
  "STRIP_PARAMETERS = [''?utm'', ''&utm'', ''?CMP'', ''&CMP'']"

subsection \<open>The string operations of Python that the script uses\<close>

text \<open>
  \<^verbatim>\<open>sub in s\<close> on strings: \<open>sub\<close> occurs in \<open>s\<close> as a contiguous block. The empty
  string occurs in every string.
\<close>

fun str_contains :: "string \<Rightarrow> string \<Rightarrow> bool" where
  "str_contains [] sub = (sub = [])"
| "str_contains (c # cs) sub = (prefix sub (c # cs) \<or> str_contains cs sub)"

text \<open>
  \<^verbatim>\<open>s.index(sub)\<close>: the lowest position at which \<open>sub\<close> occurs in \<open>s\<close>; Python raises
  \<^verbatim>\<open>ValueError\<close> when there is none, which is \<open>None\<close> here.
\<close>

fun str_index :: "string \<Rightarrow> string \<Rightarrow> nat option" where
  "str_index [] sub = (if sub = [] then Some 0 else None)"
| "str_index (c # cs) sub =
     (if prefix sub (c # cs) then Some 0 else map_option Suc (str_index cs sub))"

text \<open>
  \<^verbatim>\<open>str.isspace\<close> on one code point below 256: the characters that \<^verbatim>\<open>str.strip()\<close>
  removes are TAB, LF, VT, FF, CR, the separators FS, GS, RS and US, the space, NEL
  (133) and the no-break space (160).
\<close>

definition isspace :: "char \<Rightarrow> bool" where
  "isspace c = (let n = (of_char c :: nat) in
     (9 \<le> n \<and> n \<le> 13) \<or> (28 \<le> n \<and> n \<le> 32) \<or> n = 133 \<or> n = 160)"

text \<open>\<^verbatim>\<open>s.strip()\<close>: the white space at both ends is dropped.\<close>

definition strip :: "string \<Rightarrow> string" where
  "strip s = rev (dropWhile isspace (rev (dropWhile isspace s)))"

text \<open>\<^verbatim>\<open>str(n)\<close> for a natural number, as the f-string of line 130 formats it.\<close>

definition digit_char :: "nat \<Rightarrow> char" where
  "digit_char d = char_of (48 + d)"

fun str_of_nat :: "nat \<Rightarrow> string" where
  "str_of_nat n =
     (if n < 10 then [digit_char n] else str_of_nat (n div 10) @ [digit_char (n mod 10)])"

declare str_of_nat.simps [simp del]

subsection \<open>URL normalisation\<close>

text \<open>
  \<^verbatim>\<open>strip_url\<close>, lines 86 to 99: the slice \<^verbatim>\<open>url[:url.index(char)]\<close>, and the URL itself
  when \<^verbatim>\<open>index\<close> raises \<^verbatim>\<open>ValueError\<close>.
\<close>

definition strip_url :: "string \<Rightarrow> string \<Rightarrow> string" where
  "strip_url url char = (case str_index url char of Some k \<Rightarrow> take k url | None \<Rightarrow> url)"

text \<open>
  The loop of lines 140 to 142 over a list of markers: each marker is looked for in the
  URL as the markers before it have left it.
\<close>

fun strip_loop :: "string list \<Rightarrow> string \<Rightarrow> string" where
  "strip_loop [] article_url = article_url"
| "strip_loop (param # params) article_url =
     strip_loop params
       (if str_contains article_url param then strip_url article_url param else article_url)"

text \<open>
  The normalised URL of an article: that loop run over \<^verbatim>\<open>STRIP_PARAMETERS\<close>, which is
  what lines 140 to 142 assign to \<^verbatim>\<open>article_url\<close>.
\<close>

definition normalize_url :: "string \<Rightarrow> string" where
  "normalize_url url = strip_loop STRIP_PARAMETERS url"

subsection \<open>The Pocket client, the console and the module's global name\<close>

text \<open>
  An entry of \<^verbatim>\<open>response_output["list"]\<close>: the two fields the scan reads (lines 136
  and 137). The Pocket API gives the item id as a string.
\<close>

record item =
  item_id :: string
  given_url :: string

text \<open>
  The client class \<^verbatim>\<open>Pocket\<close> comes from a library outside the repository. An
  object of it is modelled by what the script can observe and do: the entries that
  \<^verbatim>\<open>get(state="all", sort="oldest")\<close> answers with, in the order in which the script
  iterates over them, the text of what \<^verbatim>\<open>commit()\<close> answers with, and the log of the
  method calls the object has received.
\<close>

datatype call = Get string string | Delete string | Commit

record pocket =
  saved :: "item list"
  reply :: string
  calls :: "call list"

text \<open>What the script does on the terminal: a \<^verbatim>\<open>print\<close>, or an \<^verbatim>\<open>input\<close> with its prompt.\<close>

datatype event = Print string | Input string

text \<open>
  Objects live in a store and are passed by reference, so that two names can denote the
  same client object.
\<close>

record world =
  heap :: "nat \<Rightarrow> pocket"
  console :: "event list"

text \<open>
  The module-level name \<^verbatim>\<open>PocketInstance\<close>: bound to an object by line 164 when the
  file runs as a script, unbound when the module is imported.
\<close>

record globals =
  PocketInstance :: "nat option"

datatype error = NameError string

definition print :: "string \<Rightarrow> world \<Rightarrow> world" where
  "print s w = w\<lparr>console := console w @ [Print s]\<rparr>"

definition invoke :: "nat \<Rightarrow> call \<Rightarrow> world \<Rightarrow> world" where
  "invoke r c w = w\<lparr>heap := (heap w)(r := (heap w r)\<lparr>calls := calls (heap w r) @ [c]\<rparr>)\<rparr>"

subsection \<open>The scan\<close>

text \<open>
  One iteration of the loop of \<^verbatim>\<open>queue_dedupe_actions\<close>, lines 136 to 157. The deletion
  of line 148 is called on the global name \<^verbatim>\<open>PocketInstance\<close>, as the source has it;
  reading an unbound global raises \<^verbatim>\<open>NameError\<close>, after the line before it has printed.
\<close>

definition visit :: "globals \<Rightarrow> item \<Rightarrow> string list \<Rightarrow> world \<Rightarrow> (error + string list) \<times> world" where
  "visit G it article_cache w =
     (let article_id = item_id it;
          original_article_url = given_url it;
          article_url = normalize_url original_article_url
      in if article_url \<in> set article_cache then
           (let w1 = print (''Duplicate article found: '' @ original_article_url) w
            in case PocketInstance G of
                 None \<Rightarrow> (Inl (NameError ''PocketInstance''), w1)
               | Some g \<Rightarrow> (Inr article_cache, invoke g (Delete article_id) w1))
         else
           (let w1 = (if article_url \<noteq> original_article_url
                      then print (''Article with trackers found: '' @ original_article_url) w
                      else w)
            in (Inr (article_cache @ [article_url]), w1)))"

text \<open>The \<^verbatim>\<open>for\<close> loop of line 134; an exception ends it.\<close>

fun scan :: "globals \<Rightarrow> item list \<Rightarrow> string list \<Rightarrow> world \<Rightarrow> (error + string list) \<times> world" where
  "scan G [] article_cache w = (Inr article_cache, w)"
| "scan G (it # items) article_cache w =
     (case visit G it article_cache w of
        (Inl e, w') \<Rightarrow> (Inl e, w')
      | (Inr article_cache', w') \<Rightarrow> scan G items article_cache' w')"

text \<open>
  \<^verbatim>\<open>queue_dedupe_actions\<close>, lines 102 to 157: the listing is fetched from the object
  passed as \<^verbatim>\<open>pocket_instance\<close>, the count is printed, and the scan starts from the
  empty cache. The function returns \<^verbatim>\<open>None\<close>.
\<close>

definition queue_dedupe_actions :: "globals \<Rightarrow> nat \<Rightarrow> world \<Rightarrow> (error + unit) \<times> world" where
  "queue_dedupe_actions G pocket_instance w =
     (let w1 = invoke pocket_instance (Get ''all'' ''oldest'') w;
          items_list = saved (heap w1 pocket_instance);
          w2 = print (''Found '' @ str_of_nat (length items_list) @ '' articles.'') w1
      in case scan G items_list [] w2 of
           (Inl e, w') \<Rightarrow> (Inl e, w')
         | (Inr article_cache, w') \<Rightarrow> (Inr (), w'))"

subsection \<open>The script\<close>

definition confirm_prompt :: string where
  "confirm_prompt = ''Now's the time to review the changes that will be made. If you are happy to send this to the Pocket API, type in 'y' and press Enter: ''"

text \<open>
  The block under \<^verbatim>\<open>if __name__ == "__main__"\<close>, lines 162 to 175, from the point
  where \<^verbatim>\<open>get_pocket_instance()\<close> has returned the object at \<open>r\<close> (the authentication
  is a dialogue with the remote service and the browser and is not modelled). \<open>line\<close>
  is what \<^verbatim>\<open>input\<close> returns for the confirmation.
\<close>

definition main :: "nat \<Rightarrow> string \<Rightarrow> world \<Rightarrow> (error + unit) \<times> world" where
  "main r line w =
     (let G = \<lparr>PocketInstance = Some r\<rparr>
      in case queue_dedupe_actions G r w of
           (Inl e, w1) \<Rightarrow> (Inl e, w1)
         | (Inr u, w1) \<Rightarrow>
             (let w2 = w1\<lparr>console := console w1 @ [Input confirm_prompt]\<rparr>;
                  user_input = strip line;
                  w3 = (if user_input = ''y''
                        then (let w' = invoke r Commit w2
                              in print (''Request sent. Response: '' @ reply (heap w' r)) w')
                        else print (''Received input '' @ [CHR 0x27] @ user_input @ [CHR 0x27]
                                     @ ''. Modify request has not been sent.'') w2)
              in (Inr (), print ''The script has finished running.'' w3)))"
subsection \<open>Notions used to state and prove the claims\<close>

text \<open>No marker begins with a character that occurs inside a marker.\<close>

definition apart :: "string list \<Rightarrow> bool" where
  "apart ms = (\<forall>m\<in>set ms. \<forall>m'\<in>set ms. m' \<noteq> [] \<and> hd m' \<notin> set (tl m))"

text \<open>The normalised URL of a record.\<close>

abbreviation norm_url :: "item \<Rightarrow> string" where
  "norm_url it \<equiv> normalize_url (given_url it)"

text \<open>The distinct elements of a list, in the order of their first occurrences.\<close>

definition firsts :: "'a list \<Rightarrow> 'a list" where
  "firsts xs = rev (remdups (rev xs))"

text \<open>
  The positions of a listing whose record has the normalised URL of an earlier record,
  the ids at these positions, and what a scan of the listing prints for each position.
\<close>

definition dup_positions :: "item list \<Rightarrow> nat list" where
  "dup_positions items =
     filter (\<lambda>j. \<exists>i<j. norm_url (items ! i) = norm_url (items ! j)) [0..<length items]"

definition dup_ids :: "item list \<Rightarrow> string list" where
  "dup_ids items = map (\<lambda>j. item_id (items ! j)) (dup_positions items)"

definition report :: "bool \<Rightarrow> item \<Rightarrow> event list" where
  "report dup it =
     (if dup then [Print (''Duplicate article found: '' @ given_url it)]
      else if norm_url it \<noteq> given_url it
        then [Print (''Article with trackers found: '' @ given_url it)]
        else [])"

definition reports :: "item list \<Rightarrow> event list" where
  "reports items =
     concat (map (\<lambda>j. report (\<exists>i<j. norm_url (items ! i) = norm_url (items ! j)) (items ! j))
               [0..<length items])"

text \<open>
  The listing of the specification's scenario, and a store in which every object holds
  it and has received no call yet.
\<close>

definition demo_items :: "item list" where
  "demo_items =
     [\<lparr>item_id = ''1'', given_url = ''https://a.com/x?utm=1''\<rparr>,
      \<lparr>item_id = ''2'', given_url = ''https://a.com/x''\<rparr>,
      \<lparr>item_id = ''3'', given_url = ''https://b.com/y''\<rparr>]"

definition demo_world :: world where
  "demo_world =
     \<lparr>heap = (\<lambda>r. \<lparr>saved = demo_items, reply = ''ok'', calls = []\<rparr>), console = []\<rparr>"

text \<open>The world \<open>w\<close> after the object at \<open>g\<close> has received the calls \<open>cs\<close> and the console the events \<open>es\<close>.\<close>

definition extend :: "nat \<Rightarrow> call list \<Rightarrow> event list \<Rightarrow> world \<Rightarrow> world" where
  "extend g cs es w =
     w\<lparr>heap := (heap w)(g := (heap w g)\<lparr>calls := calls (heap w g) @ cs\<rparr>),
       console := console w @ es\<rparr>"

text \<open>The same three records with the third one first, and a store that holds no record.\<close>

definition demo_reordered :: "item list" where
  "demo_reordered =
     [\<lparr>item_id = ''3'', given_url = ''https://b.com/y''\<rparr>,
      \<lparr>item_id = ''1'', given_url = ''https://a.com/x?utm=1''\<rparr>,
      \<lparr>item_id = ''2'', given_url = ''https://a.com/x''\<rparr>]"

definition empty_world :: world where
  "empty_world = \<lparr>heap = (\<lambda>r. \<lparr>saved = [], reply = ''ok'', calls = []\<rparr>), console = []\<rparr>"

section \<open>Substring search\<close>

lemma prefix_take_iff: "prefix m (take n xs) \<longleftrightarrow> prefix m xs \<and> length m \<le> n"
proof
  assume h: "prefix m (take n xs)"
  have "prefix (take n xs) xs" by (rule take_is_prefix)
  with h have "prefix m xs" by (rule prefix_order.trans)
  moreover from h have "length m \<le> length (take n xs)" by (rule prefix_length_le)
  ultimately show "prefix m xs \<and> length m \<le> n" by simp
next
  assume h: "prefix m xs \<and> length m \<le> n"
  then obtain zs where xs: "xs = m @ zs" by (auto simp: prefix_def)
  with h show "prefix m (take n xs)" by (simp add: prefix_def)
qed

lemma str_contains_iff: "str_contains s sub \<longleftrightarrow> (\<exists>j\<le>length s. prefix sub (drop j s))"
proof (induction s)
  case Nil
  then show ?case by simp
next
  case (Cons c cs)
  show ?case
  proof
    assume "str_contains (c # cs) sub"
    then consider "prefix sub (c # cs)" | "str_contains cs sub" by auto
    then show "\<exists>j\<le>length (c # cs). prefix sub (drop j (c # cs))"
    proof cases
      case 1
      then have "prefix sub (drop 0 (c # cs))" by simp
      then show ?thesis by blast
    next
      case 2
      with Cons.IH obtain j where "j \<le> length cs" "prefix sub (drop j cs)" by blast
      then have "Suc j \<le> length (c # cs) \<and> prefix sub (drop (Suc j) (c # cs))" by simp
      then show ?thesis by blast
    qed
  next
    assume "\<exists>j\<le>length (c # cs). prefix sub (drop j (c # cs))"
    then obtain j where j: "j \<le> length (c # cs)" "prefix sub (drop j (c # cs))" by blast
    show "str_contains (c # cs) sub"
    proof (cases j)
      case 0
      with j show ?thesis by simp
    next
      case (Suc i)
      with j have "i \<le> length cs \<and> prefix sub (drop i cs)" by simp
      with Cons.IH have "str_contains cs sub" by blast
      then show ?thesis by simp
    qed
  qed
qed

lemma str_contains_sublist: "str_contains s sub \<longleftrightarrow> sublist sub s"
  by (induction s) (auto simp: sublist_Cons_right)

lemma str_index_None: "str_index s sub = None \<longleftrightarrow> \<not> str_contains s sub"
  by (induction s) auto

lemma str_index_Some:
  "str_index s sub = Some k \<Longrightarrow>
     k \<le> length s \<and> prefix sub (drop k s) \<and> (\<forall>j<k. \<not> prefix sub (drop j s))"
proof (induction s arbitrary: k)
  case Nil
  then show ?case by (simp split: if_splits)
next
  case (Cons c cs)
  show ?case
  proof (cases "prefix sub (c # cs)")
    case True
    with Cons.prems show ?thesis by simp
  next
    case False
    with Cons.prems obtain i where i: "str_index cs sub = Some i" "k = Suc i" by auto
    from Cons.IH [OF i(1)]
    have ih: "i \<le> length cs" "prefix sub (drop i cs)" "\<forall>j<i. \<not> prefix sub (drop j cs)"
      by simp_all
    have "\<not> prefix sub (drop j (c # cs))" if "j < k" for j
    proof (cases j)
      case 0
      with False show ?thesis by simp
    next
      case (Suc j')
      with that i(2) ih(3) show ?thesis by simp
    qed
    with ih i(2) show ?thesis by simp
  qed
qed

section \<open>Normalisation\<close>

lemma strip_url_take:
  "str_contains url m \<Longrightarrow> \<exists>k. str_index url m = Some k \<and> strip_url url m = take k url"
  by (cases "str_index url m") (auto simp: str_index_None strip_url_def)

lemma strip_loop_prefix: "prefix (strip_loop ms url) url"
proof (induction ms arbitrary: url)
  case Nil
  then show ?case by simp
next
  case (Cons m ms)
  let ?u = "if str_contains url m then strip_url url m else url"
  have "prefix ?u url"
    by (cases "str_index url m") (auto simp: strip_url_def take_is_prefix)
  moreover have "prefix (strip_loop ms ?u) ?u" by (rule Cons.IH)
  ultimately have "prefix (strip_loop ms ?u) url" by (metis prefix_order.trans)
  then show ?case by simp
qed

lemma not_contains_prefix:
  assumes "\<not> str_contains s m" and "prefix t s"
  shows "\<not> str_contains t m"
proof
  assume "str_contains t m"
  then have "sublist m t" by (simp add: str_contains_sublist)
  moreover from assms(2) have "sublist t s" by (rule prefix_imp_sublist)
  ultimately have "sublist m s" by (rule sublist_order.order.trans)
  with assms(1) show False by (simp add: str_contains_sublist)
qed

lemma strip_url_removes:
  assumes "m \<noteq> []" and "str_contains url m"
  shows "\<not> str_contains (strip_url url m) m"
proof
  assume c: "str_contains (strip_url url m) m"
  from strip_url_take [OF assms(2)] obtain k
    where k: "str_index url m = Some k" "strip_url url m = take k url" by blast
  from str_index_Some [OF k(1)]
  have kk: "k \<le> length url" "\<forall>j<k. \<not> prefix m (drop j url)" by simp_all
  from c k(2) obtain j where j: "j \<le> length (take k url)" "prefix m (drop j (take k url))"
    by (auto simp: str_contains_iff)
  from j(2) have "prefix m (take (k - j) (drop j url))" by (simp add: drop_take)
  then have p: "prefix m (drop j url)" "length m \<le> k - j" by (simp_all add: prefix_take_iff)
  from p(2) assms(1) have "j < k" by (cases m) auto
  with kk(2) p(1) show False by blast
qed

lemma strip_loop_clean:
  "[] \<notin> set ms \<Longrightarrow> m \<in> set ms \<Longrightarrow> \<not> str_contains (strip_loop ms url) m"
proof (induction ms arbitrary: url)
  case Nil
  then show ?case by simp
next
  case (Cons a ms)
  let ?u = "if str_contains url a then strip_url url a else url"
  from Cons.prems(1) have a: "a \<noteq> []" and ms: "[] \<notin> set ms" by auto
  show ?case
  proof (cases "m = a")
    case True
    have "\<not> str_contains ?u a" using strip_url_removes [OF a] by auto
    then have "\<not> str_contains (strip_loop ms ?u) a"
      by (rule not_contains_prefix) (rule strip_loop_prefix)
    with True show ?thesis by simp
  next
    case False
    with Cons.prems(2) have "m \<in> set ms" by simp
    from Cons.IH [OF ms this] show ?thesis by simp
  qed
qed

lemma strip_loop_absent:
  "\<forall>m\<in>set ms. \<not> str_contains url m \<Longrightarrow> strip_loop ms url = url"
  by (induction ms arbitrary: url) auto

lemma markers_nonempty: "[] \<notin> set STRIP_PARAMETERS"
  by (simp add: STRIP_PARAMETERS_def)

lemma prefix_drop_take_iff:
  "j \<le> q \<Longrightarrow> prefix m (drop j (take q url)) \<longleftrightarrow> prefix m (drop j url) \<and> j + length m \<le> q"
  by (auto simp: drop_take prefix_take_iff)

lemma prefix_drop_length: "prefix m (drop j url) \<Longrightarrow> j \<le> length url \<Longrightarrow> j + length m \<le> length url"
  by (drule prefix_length_le) simp

lemma prefix_drop_nth:
  assumes "prefix m (drop j url)" and "i < length m"
  shows "url ! (j + i) = m ! i"
proof -
  from assms(1) obtain zs where zs: "drop j url = m @ zs" by (auto simp: prefix_def)
  have "j + i < length url"
  proof -
    have "length (drop j url) = length m + length zs" by (simp add: zs)
    with assms(2) show ?thesis by simp
  qed
  then have "url ! (j + i) = drop j url ! i" by simp
  also have "\<dots> = m ! i" using assms(2) by (simp add: zs nth_append)
  finally show ?thesis .
qed


lemma no_straddle:
  assumes ap: "m' \<noteq> []" "hd m' \<notin> set (tl m)"
    and m: "prefix m (drop j url)" and m': "prefix m' (drop q url)"
    and jq: "j < q"
  shows "j + length m \<le> q"
proof (rule ccontr)
  assume "\<not> j + length m \<le> q"
  with jq have lt: "q - j < length m" by arith
  from prefix_drop_nth [OF m lt] jq have "url ! q = m ! (q - j)" by simp
  moreover from ap(1) have "0 < length m'" by simp
  from prefix_drop_nth [OF m' this] have "url ! q = hd m'" using ap(1) by (simp add: hd_conv_nth)
  moreover have "m ! (q - j) \<in> set (tl m)"
  proof -
    from jq obtain d where d: "q - j = Suc d" by (cases "q - j") auto
    with lt have "d < length (tl m)" by simp
    then have "tl m ! d \<in> set (tl m)" by (rule nth_mem)
    moreover have "tl m ! d = m ! Suc d" using lt d by (simp add: nth_tl)
    ultimately show ?thesis by (simp add: d)
  qed
  ultimately show False using ap(2) by simp
qed

lemma strip_loop_earliest:
  assumes "apart (ps @ ms)" and "q \<le> length url"
    and "q = length url \<or> (\<exists>m\<in>set ps. prefix m (drop q url))"
    and "\<forall>m\<in>set ps. \<forall>j<q. \<not> prefix m (drop j url)"
  shows "\<exists>p\<le>q. strip_loop ms (take q url) = take p url
           \<and> (p = length url \<or> (\<exists>m\<in>set (ps @ ms). prefix m (drop p url)))
           \<and> (\<forall>m\<in>set (ps @ ms). \<forall>j<p. \<not> prefix m (drop j url))"
  using assms
proof (induction ms arbitrary: ps q)
  case Nil
  then show ?case by auto
next
  case (Cons a ms)
  let ?s = "take q url"
  have ap: "apart ((ps @ [a]) @ ms)" using Cons.prems(1) by simp
  show ?case
  proof (cases "str_contains ?s a")
    case True
    from strip_url_take [OF True] obtain k
      where k: "str_index ?s a = Some k" "strip_url ?s a = take k ?s" by blast
    from str_index_Some [OF k(1)] Cons.prems(2)
    have kq: "k \<le> q" and at: "prefix a (drop k ?s)" and first: "\<forall>j<k. \<not> prefix a (drop j ?s)"
      by simp_all
    from at kq have at': "prefix a (drop k url)" and fit: "k + length a \<le> q"
      by (simp_all add: prefix_drop_take_iff)
    have none: "\<forall>m\<in>set (ps @ [a]). \<forall>j<k. \<not> prefix m (drop j url)"
    proof (intro ballI allI impI)
      fix m j assume m: "m \<in> set (ps @ [a])" and j: "j < k"
      show "\<not> prefix m (drop j url)"
      proof (cases "m = a")
        case True
        from first j have "\<not> prefix a (drop j ?s)" by blast
        moreover from j kq have "j \<le> q" by simp
        ultimately have "\<not> (prefix a (drop j url) \<and> j + length a \<le> q)"
          by (simp add: prefix_drop_take_iff)
        with fit j True show ?thesis by auto
      next
        case False
        with m have "m \<in> set ps" by simp
        moreover from j kq have "j < q" by simp
        ultimately show ?thesis using Cons.prems(4) by blast
      qed
    qed
    have "k \<le> length url" using kq Cons.prems(2) by simp
    moreover have "k = length url \<or> (\<exists>m\<in>set (ps @ [a]). prefix m (drop k url))"
      using at' by auto
    ultimately obtain p where p: "p \<le> k" "strip_loop ms (take k url) = take p url"
        "p = length url \<or> (\<exists>m\<in>set ((ps @ [a]) @ ms). prefix m (drop p url))"
        "\<forall>m\<in>set ((ps @ [a]) @ ms). \<forall>j<p. \<not> prefix m (drop j url)"
      using Cons.IH [OF ap _ _ none] by blast
    have "take k ?s = take k url" using kq by (simp add: min_def)
    with True k(2) p(2) have "strip_loop (a # ms) ?s = take p url" by simp
    moreover from p(1) kq have "p \<le> q" by simp
    ultimately show ?thesis using p(3,4) by auto
  next
    case False
    have none: "\<forall>m\<in>set (ps @ [a]). \<forall>j<q. \<not> prefix m (drop j url)"
    proof (intro ballI allI impI)
      fix m j assume m: "m \<in> set (ps @ [a])" and j: "j < q"
      show "\<not> prefix m (drop j url)"
      proof (cases "m = a")
        case True
        show ?thesis
        proof
          assume occ: "prefix m (drop j url)"
          from j Cons.prems(2) have "j \<le> length url" by simp
          from prefix_drop_length [OF occ this] have len: "j + length m \<le> length url" .
          have "j + length m \<le> q"
          proof (cases "q = length url")
            case True
            with len show ?thesis by simp
          next
            case False
            with Cons.prems(3) obtain m' where m': "m' \<in> set ps" "prefix m' (drop q url)"
              by blast
            from Cons.prems(1) m'(1) True have "m' \<noteq> []" "hd m' \<notin> set (tl m)"
              by (auto simp: apart_def)
            from no_straddle [OF this occ m'(2) j] show ?thesis .
          qed
          with occ j have "prefix m (drop j ?s)" by (simp add: prefix_drop_take_iff)
          moreover from j Cons.prems(2) have "j \<le> length ?s" by simp
          ultimately have "str_contains ?s m" unfolding str_contains_iff by blast
          with False True show False by simp
        qed
      next
        case False
        with m have "m \<in> set ps" by simp
        with j show ?thesis using Cons.prems(4) by blast
      qed
    qed
    have "q = length url \<or> (\<exists>m\<in>set (ps @ [a]). prefix m (drop q url))"
      using Cons.prems(3) by auto
    from Cons.IH [OF ap Cons.prems(2) this none] False show ?thesis by simp
  qed
qed

lemma markers_apart: "apart STRIP_PARAMETERS"
  by (simp add: apart_def STRIP_PARAMETERS_def)

section \<open>Claims about normalisation\<close>

text \<open>
  Claim C3, as amended. For every URL that contains at least one configured marker,
  normalisation returns a strict prefix of the URL, the one that ends exactly before the
  earliest position at which any configured marker occurs in the URL; that prefix is
  empty exactly when the URL begins with a configured marker.
\<close>

theorem normalize_url_cuts_at_earliest_marker:
  assumes "\<exists>param\<in>set STRIP_PARAMETERS. str_contains url param"
  shows "\<exists>p<length url. normalize_url url = take p url
           \<and> (\<exists>param\<in>set STRIP_PARAMETERS. prefix param (drop p url))
           \<and> (\<forall>param\<in>set STRIP_PARAMETERS. \<forall>j<p. \<not> prefix param (drop j url))
           \<and> (normalize_url url = [] \<longleftrightarrow> (\<exists>param\<in>set STRIP_PARAMETERS. prefix param url))"
proof -
  have "apart ([] @ STRIP_PARAMETERS)" using markers_apart by simp
  from strip_loop_earliest [OF this, of "length url" url]
  obtain p where p: "p \<le> length url" "normalize_url url = take p url"
      "p = length url \<or> (\<exists>m\<in>set STRIP_PARAMETERS. prefix m (drop p url))"
      "\<forall>m\<in>set STRIP_PARAMETERS. \<forall>j<p. \<not> prefix m (drop j url)"
    by (auto simp: normalize_url_def)
  from assms obtain a j where a: "a \<in> set STRIP_PARAMETERS" "j \<le> length url" "prefix a (drop j url)"
    by (auto simp: str_contains_iff)
  from a(1) markers_nonempty have "a \<noteq> []" by auto
  with prefix_drop_length [OF a(3) a(2)] have jlt: "j < length url" by (cases a) auto
  have "\<not> j < p" using p(4) a(1,3) by blast
  with jlt have plt: "p < length url" by simp
  with p(3) have hit: "\<exists>m\<in>set STRIP_PARAMETERS. prefix m (drop p url)" by simp
  have "normalize_url url = [] \<longleftrightarrow> (\<exists>m\<in>set STRIP_PARAMETERS. prefix m url)"
  proof
    assume "normalize_url url = []"
    with p(2) plt have "p = 0" by auto
    with hit show "\<exists>m\<in>set STRIP_PARAMETERS. prefix m url" by simp
  next
    assume "\<exists>m\<in>set STRIP_PARAMETERS. prefix m url"
    then obtain m where "m \<in> set STRIP_PARAMETERS" "prefix m (drop 0 url)" by auto
    with p(4) have "\<not> 0 < p" by blast
    with p(2) show "normalize_url url = []" by simp
  qed
  with plt p(2) hit p(4) show ?thesis by blast
qed

theorem normalize_url_cuts_at_earliest_marker_witness:
  "(\<exists>param\<in>set STRIP_PARAMETERS. str_contains ''https://a.com/x?utm=1'' param)
   \<and> (\<exists>p<length ''https://a.com/x?utm=1''.
         normalize_url ''https://a.com/x?utm=1'' = take p ''https://a.com/x?utm=1''
         \<and> (\<exists>param\<in>set STRIP_PARAMETERS. prefix param (drop p ''https://a.com/x?utm=1''))
         \<and> (\<forall>param\<in>set STRIP_PARAMETERS. \<forall>j<p. \<not> prefix param (drop j ''https://a.com/x?utm=1''))
         \<and> (normalize_url ''https://a.com/x?utm=1'' = []
              \<longleftrightarrow> (\<exists>param\<in>set STRIP_PARAMETERS. prefix param ''https://a.com/x?utm=1'')))"
proof -
  have h: "\<exists>param\<in>set STRIP_PARAMETERS. str_contains ''https://a.com/x?utm=1'' param"
    by (simp add: STRIP_PARAMETERS_def)
  from normalize_url_cuts_at_earliest_marker [OF h] h show ?thesis by blast
qed

text \<open>
  Claim C3 as the specification states it fails. A URL that begins with a marker contains
  that marker and is normalised to the empty string; and in a URL with two markers the
  result ends before the earlier of them, which is not the first occurrence of the other
  (position 21 below), although the URL contains that one too.
\<close>

theorem normalize_url_not_always_nonempty:
  "''?utm'' \<in> set STRIP_PARAMETERS
   \<and> str_contains ''?utm_source=rss'' ''?utm''
   \<and> normalize_url ''?utm_source=rss'' = []
   \<and> str_contains ''https://a.com/x&utm=1?utm=2'' ''?utm''
   \<and> str_index ''https://a.com/x&utm=1?utm=2'' ''?utm'' = Some 21
   \<and> normalize_url ''https://a.com/x&utm=1?utm=2'' = ''https://a.com/x''"
  by (simp add: STRIP_PARAMETERS_def normalize_url_def strip_url_def)

text \<open>
  Claim C6. For every URL that contains none of the configured markers, the full pass
  over the marker list returns the URL unchanged: the absence of a marker is not an
  error.
\<close>

theorem normalize_url_identity_without_markers:
  assumes "\<forall>param\<in>set STRIP_PARAMETERS. \<not> str_contains url param"
  shows "normalize_url url = url"
  using assms unfolding normalize_url_def by (rule strip_loop_absent)

theorem normalize_url_identity_without_markers_witness:
  "\<not> str_contains ''https://b.com/y?page=2&q=utm'' ''?utm''
   \<and> \<not> str_contains ''https://b.com/y?page=2&q=utm'' ''&utm''
   \<and> \<not> str_contains ''https://b.com/y?page=2&q=utm'' ''?CMP''
   \<and> \<not> str_contains ''https://b.com/y?page=2&q=utm'' ''&CMP''
   \<and> normalize_url ''https://b.com/y?page=2&q=utm'' = ''https://b.com/y?page=2&q=utm''"
proof -
  have h: "\<forall>param\<in>set STRIP_PARAMETERS. \<not> str_contains ''https://b.com/y?page=2&q=utm'' param"
    by (simp add: STRIP_PARAMETERS_def)
  from normalize_url_identity_without_markers [OF h] h show ?thesis
    by (simp add: STRIP_PARAMETERS_def)
qed

text \<open>
  Claim C9. Normalisation is idempotent: a second full pass over the marker list returns
  an already normalised URL unchanged, because the result of one pass contains none of
  the configured markers.
\<close>

theorem normalize_url_idempotent:
  "normalize_url (normalize_url url) = normalize_url url
   \<and> (\<forall>param\<in>set STRIP_PARAMETERS. \<not> str_contains (normalize_url url) param)"
proof -
  have clean: "\<forall>param\<in>set STRIP_PARAMETERS. \<not> str_contains (normalize_url url) param"
    unfolding normalize_url_def using strip_loop_clean [OF markers_nonempty] by blast
  then have "strip_loop STRIP_PARAMETERS (normalize_url url) = normalize_url url"
    by (rule strip_loop_absent)
  with clean show ?thesis by (simp add: normalize_url_def)
qed

theorem normalize_url_idempotent_witness:
  "normalize_url (normalize_url ''https://a.com/x&utm=1?utm=2'') = ''https://a.com/x''
   \<and> normalize_url ''https://a.com/x&utm=1?utm=2'' = ''https://a.com/x''
   \<and> \<not> str_contains ''https://a.com/x'' ''?utm''
   \<and> \<not> str_contains ''https://a.com/x'' ''&utm''
   \<and> \<not> str_contains ''https://a.com/x'' ''?CMP''
   \<and> \<not> str_contains ''https://a.com/x'' ''&CMP''"
proof -
  have e: "normalize_url ''https://a.com/x&utm=1?utm=2'' = ''https://a.com/x''"
    by (simp add: STRIP_PARAMETERS_def normalize_url_def strip_url_def)
  from normalize_url_idempotent [of "''https://a.com/x&utm=1?utm=2''"] show ?thesis
    unfolding e by (simp add: STRIP_PARAMETERS_def)
qed

section \<open>The scan\<close>

lemma firsts_snoc: "firsts (xs @ [x]) = (if x \<in> set xs then firsts xs else firsts xs @ [x])"
  by (simp add: firsts_def)

lemma set_firsts: "set (firsts xs) = set xs"
  by (simp add: firsts_def)

lemma distinct_firsts: "distinct (firsts xs)"
  by (simp add: firsts_def)

lemma earlier_snoc:
  assumes "j \<le> length xs"
  shows "(\<exists>i<j. norm_url ((xs @ [x]) ! i) = y) \<longleftrightarrow> (\<exists>i<j. norm_url (xs ! i) = y)"
proof -
  have "(xs @ [x]) ! i = xs ! i" if "i < j" for i
    using that assms by (simp add: nth_append)
  then show ?thesis by auto
qed

lemma earlier_snoc_old:
  assumes "j < length xs"
  shows "(\<exists>i<j. norm_url ((xs @ [x]) ! i) = norm_url ((xs @ [x]) ! j))
           \<longleftrightarrow> (\<exists>i<j. norm_url (xs ! i) = norm_url (xs ! j))"
proof -
  from assms have a: "(xs @ [x]) ! j = xs ! j" by (simp add: nth_append)
  from assms have "j \<le> length xs" by simp
  then show ?thesis unfolding a by (rule earlier_snoc)
qed

lemma earlier_in_set:
  "(\<exists>i<length xs. norm_url (xs ! i) = y) \<longleftrightarrow> y \<in> norm_url ` set xs"
proof
  assume "\<exists>i<length xs. norm_url (xs ! i) = y"
  then obtain i where i: "i < length xs" "norm_url (xs ! i) = y" by blast
  from i(1) have "xs ! i \<in> set xs" by (rule nth_mem)
  with i(2) show "y \<in> norm_url ` set xs" by blast
next
  assume "y \<in> norm_url ` set xs"
  then obtain z where z: "z \<in> set xs" "y = norm_url z" by blast
  from z(1) obtain i where "i < length xs" "xs ! i = z" by (auto simp: in_set_conv_nth)
  with z(2) show "\<exists>i<length xs. norm_url (xs ! i) = y" by blast
qed

lemma earlier_snoc_new:
  "(\<exists>i<length xs. norm_url ((xs @ [x]) ! i) = norm_url x) \<longleftrightarrow> norm_url x \<in> norm_url ` set xs"
proof -
  have "(\<exists>i<length xs. norm_url ((xs @ [x]) ! i) = norm_url x)
          \<longleftrightarrow> (\<exists>i<length xs. norm_url (xs ! i) = norm_url x)"
    by (rule earlier_snoc) simp
  then show ?thesis by (simp only: earlier_in_set)
qed

lemma dup_positions_snoc:
  "dup_positions (xs @ [x]) =
     dup_positions xs @ (if norm_url x \<in> norm_url ` set xs then [length xs] else [])"
proof -
  have old: "filter (\<lambda>j. \<exists>i<j. norm_url ((xs @ [x]) ! i) = norm_url ((xs @ [x]) ! j)) [0..<length xs]
        = filter (\<lambda>j. \<exists>i<j. norm_url (xs ! i) = norm_url (xs ! j)) [0..<length xs]"
  proof (rule filter_cong)
    fix j assume "j \<in> set [0..<length xs]"
    then have "j < length xs" by simp
    then show "(\<exists>i<j. norm_url ((xs @ [x]) ! i) = norm_url ((xs @ [x]) ! j))
                 = (\<exists>i<j. norm_url (xs ! i) = norm_url (xs ! j))"
      by (rule earlier_snoc_old)
  qed simp
  have "dup_positions (xs @ [x])
        = filter (\<lambda>j. \<exists>i<j. norm_url ((xs @ [x]) ! i) = norm_url ((xs @ [x]) ! j)) [0..<length xs]
          @ (if \<exists>i<length xs. norm_url ((xs @ [x]) ! i) = norm_url x then [length xs] else [])"
    by (simp add: dup_positions_def)
  also have "\<dots> = dup_positions xs
          @ (if norm_url x \<in> norm_url ` set xs then [length xs] else [])"
    by (simp only: old earlier_snoc_new dup_positions_def)
  finally show ?thesis .
qed

lemma dup_positions_bound: "j \<in> set (dup_positions xs) \<Longrightarrow> j < length xs"
  by (simp add: dup_positions_def)

lemma dup_ids_snoc:
  "dup_ids (xs @ [x]) =
     dup_ids xs @ (if norm_url x \<in> norm_url ` set xs then [item_id x] else [])"
proof -
  have "map (\<lambda>j. item_id ((xs @ [x]) ! j)) (dup_positions xs)
        = map (\<lambda>j. item_id (xs ! j)) (dup_positions xs)"
  proof (rule map_cong)
    fix j assume "j \<in> set (dup_positions xs)"
    then have "j < length xs" by (rule dup_positions_bound)
    then show "item_id ((xs @ [x]) ! j) = item_id (xs ! j)" by (simp add: nth_append)
  qed simp
  then show ?thesis by (simp add: dup_ids_def dup_positions_snoc)
qed

lemma report_snoc_old:
  assumes "j < length xs"
  shows "report (\<exists>i<j. norm_url ((xs @ [x]) ! i) = norm_url ((xs @ [x]) ! j)) ((xs @ [x]) ! j)
         = report (\<exists>i<j. norm_url (xs ! i) = norm_url (xs ! j)) (xs ! j)"
proof -
  from assms have a: "(xs @ [x]) ! j = xs ! j" by (simp add: nth_append)
  show ?thesis unfolding earlier_snoc_old [OF assms] unfolding a ..
qed

lemma reports_snoc:
  "reports (xs @ [x]) = reports xs @ report (norm_url x \<in> norm_url ` set xs) x"
proof -
  have old: "map (\<lambda>j. report (\<exists>i<j. norm_url ((xs @ [x]) ! i) = norm_url ((xs @ [x]) ! j))
                 ((xs @ [x]) ! j)) [0..<length xs]
        = map (\<lambda>j. report (\<exists>i<j. norm_url (xs ! i) = norm_url (xs ! j)) (xs ! j))
            [0..<length xs]"
  proof (rule map_cong)
    fix j assume "j \<in> set [0..<length xs]"
    then have "j < length xs" by simp
    then show "report (\<exists>i<j. norm_url ((xs @ [x]) ! i) = norm_url ((xs @ [x]) ! j)) ((xs @ [x]) ! j)
         = report (\<exists>i<j. norm_url (xs ! i) = norm_url (xs ! j)) (xs ! j)"
      by (rule report_snoc_old)
  qed simp
  have "reports (xs @ [x])
        = concat (map (\<lambda>j. report (\<exists>i<j. norm_url ((xs @ [x]) ! i) = norm_url ((xs @ [x]) ! j))
                 ((xs @ [x]) ! j)) [0..<length xs])
          @ report (\<exists>i<length xs. norm_url ((xs @ [x]) ! i) = norm_url x) x"
    by (simp add: reports_def)
  also have "\<dots> = reports xs @ report (norm_url x \<in> norm_url ` set xs) x"
    by (simp only: old earlier_snoc_new reports_def)
  finally show ?thesis .
qed

lemma scan_append:
  "scan G (xs @ ys) c w =
     (case scan G xs c w of
        (Inl e, w') \<Rightarrow> (Inl e, w')
      | (Inr c', w') \<Rightarrow> scan G ys c' w')"
proof (induction xs arbitrary: c w)
  case Nil
  then show ?case by simp
next
  case (Cons x xs)
  obtain r w' where v: "visit G x c w = (r, w')" by (cases "visit G x c w")
  show ?case
  proof (cases r)
    case (Inl e)
    with v show ?thesis by simp
  next
    case (Inr c')
    with v Cons.IH [of c' w'] show ?thesis by simp
  qed
qed

lemma scan_single: "scan G [x] c w = visit G x c w"
proof -
  obtain r w' where v: "visit G x c w = (r, w')" by (cases "visit G x c w")
  then show ?thesis by (cases r) simp_all
qed

lemma extend_nothing: "extend g [] [] w = w"
  by (simp add: extend_def)

lemma extend_extend: "extend g cs' es' (extend g cs es w) = extend g (cs @ cs') (es @ es') w"
  by (simp add: extend_def)

lemma heap_extend:
  "heap (extend g cs es w) r = (if r = g then (heap w g)\<lparr>calls := calls (heap w g) @ cs\<rparr> else heap w r)"
  by (simp add: extend_def)

lemma console_extend: "console (extend g cs es w) = console w @ es"
  by (simp add: extend_def)

lemma visit_bound:
  assumes "PocketInstance G = Some g"
  shows "visit G it c w =
     (Inr (if norm_url it \<in> set c then c else c @ [norm_url it]),
      extend g (if norm_url it \<in> set c then [Delete (item_id it)] else [])
        (report (norm_url it \<in> set c) it) w)"
  using assms by (simp add: visit_def Let_def print_def invoke_def report_def extend_def)

lemma scan_bound:
  assumes "PocketInstance G = Some g"
  shows "scan G items [] w =
     (Inr (firsts (map norm_url items)), extend g (map Delete (dup_ids items)) (reports items) w)"
proof (induction items rule: rev_induct)
  case Nil
  then show ?case
    by (simp add: firsts_def dup_ids_def dup_positions_def reports_def extend_nothing)
next
  case (snoc x xs)
  let ?c = "firsts (map norm_url xs)"
  let ?w = "extend g (map Delete (dup_ids xs)) (reports xs) w"
  have mem: "norm_url x \<in> set ?c \<longleftrightarrow> norm_url x \<in> norm_url ` set xs"
    by (simp add: set_firsts)
  have "scan G (xs @ [x]) [] w = scan G [x] ?c ?w"
    by (simp add: scan_append snoc.IH del: scan.simps)
  also have "\<dots> = visit G x ?c ?w"
    by (rule scan_single)
  also have "\<dots> = (Inr (firsts (map norm_url (xs @ [x]))),
      extend g (map Delete (dup_ids (xs @ [x]))) (reports (xs @ [x])) w)"
  proof (cases "norm_url x \<in> norm_url ` set xs")
    case True
    with mem show ?thesis
      by (simp add: visit_bound [OF assms] firsts_snoc dup_ids_snoc reports_snoc extend_extend)
  next
    case False
    with mem show ?thesis
      by (simp add: visit_bound [OF assms] firsts_snoc dup_ids_snoc reports_snoc extend_extend)
  qed
  finally show ?case .
qed

section \<open>Claims about the scan\<close>

lemma demo_norms:
  "map norm_url demo_items = [''https://a.com/x'', ''https://a.com/x'', ''https://b.com/y'']"
  by (simp add: demo_items_def normalize_url_def STRIP_PARAMETERS_def strip_url_def)

lemma scan_take_drop:
  assumes "PocketInstance G = Some g"
  shows "\<exists>c w'. scan G (take k items) [] w = (Inr c, w')
           \<and> c = firsts (map norm_url (take k items))
           \<and> w' = extend g (map Delete (dup_ids (take k items))) (reports (take k items)) w
           \<and> scan G items [] w = scan G (drop k items) c w'"
proof -
  let ?c = "firsts (map norm_url (take k items))"
  let ?w = "extend g (map Delete (dup_ids (take k items))) (reports (take k items)) w"
  have a: "scan G (take k items) [] w = (Inr ?c, ?w)" by (rule scan_bound [OF assms])
  have "scan G (take k items @ drop k items) [] w = scan G (drop k items) ?c ?w"
    unfolding scan_append a by simp
  then have "scan G items [] w = scan G (drop k items) ?c ?w" by simp
  with a show ?thesis by blast
qed

text \<open>
  Claim C10. At every point of a scan (after the first \<open>k\<close> records, for every \<open>k\<close>; the
  whole listing when \<open>k\<close> is its length or more) the cache holds pairwise distinct
  normalised URLs: it is the sequence of the distinct normalised URLs of the records
  visited so far, in the order of their first occurrences, and the rest of the scan
  goes on from that cache. The scan is the one of the script, where the global name is
  bound to a client object.
\<close>

theorem scan_cache_first_occurrences:
  assumes "PocketInstance G = Some g"
  shows "\<exists>c w'. scan G (take k items) [] w = (Inr c, w')
           \<and> distinct c
           \<and> c = rev (remdups (rev (map norm_url (take k items))))
           \<and> scan G items [] w = scan G (drop k items) c w'"
  using scan_take_drop [OF assms, of k items w] by (auto simp: firsts_def)

theorem scan_cache_first_occurrences_witness:
  "PocketInstance \<lparr>PocketInstance = Some 0\<rparr> = Some 0
   \<and> (\<exists>c w'. scan \<lparr>PocketInstance = Some 0\<rparr> (take 3 demo_items) [] demo_world = (Inr c, w')
           \<and> distinct c
           \<and> c = [''https://a.com/x'', ''https://b.com/y'']
           \<and> scan \<lparr>PocketInstance = Some 0\<rparr> demo_items [] demo_world
               = scan \<lparr>PocketInstance = Some 0\<rparr> (drop 3 demo_items) c w')"
proof -
  have h: "PocketInstance \<lparr>PocketInstance = Some 0\<rparr> = Some 0" by simp
  have t: "take 3 demo_items = demo_items" by (simp add: demo_items_def)
  from scan_cache_first_occurrences [OF h, of 3 demo_items demo_world] show ?thesis
    unfolding t demo_norms by simp
qed

text \<open>
  Claim C7. A record whose normalised URL differs from its original URL and is not in
  the cache yet is only reported: the iteration prints the tracked-URL line and nothing
  else, no object of the store receives a call (so no deletion is queued and the queue
  is as it was), and the normalised URL is appended to the cache.
\<close>

theorem tracked_url_only_reported:
  assumes "norm_url it \<noteq> given_url it" and "norm_url it \<notin> set article_cache"
  shows "\<exists>w'. visit G it article_cache w = (Inr (article_cache @ [norm_url it]), w')
           \<and> heap w' = heap w
           \<and> console w' = console w @ [Print (''Article with trackers found: '' @ given_url it)]"
  using assms by (simp add: visit_def Let_def print_def)

theorem tracked_url_only_reported_witness:
  "norm_url \<lparr>item_id = ''1'', given_url = ''https://a.com/x?utm=1''\<rparr>
     \<noteq> given_url \<lparr>item_id = ''1'', given_url = ''https://a.com/x?utm=1''\<rparr>
   \<and> norm_url \<lparr>item_id = ''1'', given_url = ''https://a.com/x?utm=1''\<rparr> \<notin> set [''https://b.com/y'']
   \<and> (\<exists>w'. visit \<lparr>PocketInstance = None\<rparr> \<lparr>item_id = ''1'', given_url = ''https://a.com/x?utm=1''\<rparr>
               [''https://b.com/y''] demo_world
             = (Inr [''https://b.com/y'', ''https://a.com/x''], w')
           \<and> heap w' = heap demo_world
           \<and> console w' = console demo_world
               @ [Print ''Article with trackers found: https://a.com/x?utm=1''])"
proof -
  have n: "norm_url \<lparr>item_id = ''1'', given_url = ''https://a.com/x?utm=1''\<rparr> = ''https://a.com/x''"
    by (simp add: normalize_url_def STRIP_PARAMETERS_def strip_url_def)
  have h1: "norm_url \<lparr>item_id = ''1'', given_url = ''https://a.com/x?utm=1''\<rparr>
     \<noteq> given_url \<lparr>item_id = ''1'', given_url = ''https://a.com/x?utm=1''\<rparr>"
    unfolding n by simp
  have h2: "norm_url \<lparr>item_id = ''1'', given_url = ''https://a.com/x?utm=1''\<rparr> \<notin> set [''https://b.com/y'']"
    unfolding n by simp
  from tracked_url_only_reported [OF h1 h2, of "\<lparr>PocketInstance = None\<rparr>" demo_world] h1 h2
  show ?thesis unfolding n by simp
qed

section \<open>The function and the script\<close>

lemma saved_invoke: "saved (heap (invoke r c w) q) = saved (heap w q)"
  by (simp add: invoke_def)

lemma queue_dedupe_actions_bound:
  assumes "PocketInstance G = Some g"
  shows "queue_dedupe_actions G p w =
     (Inr (), extend g (map Delete (dup_ids (saved (heap w p)))) (reports (saved (heap w p)))
        (print (''Found '' @ str_of_nat (length (saved (heap w p))) @ '' articles.'')
           (invoke p (Get ''all'' ''oldest'') w)))"
  by (simp add: queue_dedupe_actions_def Let_def saved_invoke scan_bound [OF assms])

lemma main_result:
  "main r line w =
     (Inr (),
      print ''The script has finished running.''
        (let w1 = snd (queue_dedupe_actions \<lparr>PocketInstance = Some r\<rparr> r w);
             w2 = w1\<lparr>console := console w1 @ [Input confirm_prompt]\<rparr>
         in if strip line = ''y''
            then print (''Request sent. Response: '' @ reply (heap w2 r)) (invoke r Commit w2)
            else print (''Received input '' @ [CHR 0x27] @ strip line @ [CHR 0x27]
                         @ ''. Modify request has not been sent.'') w2))"
proof -
  have "PocketInstance \<lparr>PocketInstance = Some r\<rparr> = Some r" by simp
  from queue_dedupe_actions_bound [OF this, of r w] show ?thesis
    by (simp add: main_def Let_def invoke_def print_def)
qed

lemma demo_urls:
  "normalize_url ''https://a.com/x?utm=1'' = ''https://a.com/x''"
  "normalize_url ''https://a.com/x'' = ''https://a.com/x''"
  "normalize_url ''https://b.com/y'' = ''https://b.com/y''"
  by (simp_all add: normalize_url_def STRIP_PARAMETERS_def strip_url_def)

lemma dup_ids_demo: "dup_ids demo_items = [''2'']"
proof -
  let ?a = "\<lparr>item_id = ''1'', given_url = ''https://a.com/x?utm=1''\<rparr>"
  let ?b = "\<lparr>item_id = ''2'', given_url = ''https://a.com/x''\<rparr>"
  let ?c = "\<lparr>item_id = ''3'', given_url = ''https://b.com/y''\<rparr>"
  have 0: "dup_ids [] = []" by (simp add: dup_ids_def dup_positions_def)
  have 1: "dup_ids [?a] = []" using dup_ids_snoc [of "[]" ?a] by (simp add: 0)
  have 2: "dup_ids [?a, ?b] = [''2'']" using dup_ids_snoc [of "[?a]" ?b] by (simp add: 1 demo_urls)
  have 3: "dup_ids [?a, ?b, ?c] = [''2'']" using dup_ids_snoc [of "[?a, ?b]" ?c] by (simp add: 2 demo_urls)
  then show ?thesis by (simp add: demo_items_def)
qed

lemma reports_demo:
  "reports demo_items =
     [Print ''Article with trackers found: https://a.com/x?utm=1'',
      Print ''Duplicate article found: https://a.com/x'']"
proof -
  let ?a = "\<lparr>item_id = ''1'', given_url = ''https://a.com/x?utm=1''\<rparr>"
  let ?b = "\<lparr>item_id = ''2'', given_url = ''https://a.com/x''\<rparr>"
  let ?c = "\<lparr>item_id = ''3'', given_url = ''https://b.com/y''\<rparr>"
  have 0: "reports [] = []" by (simp add: reports_def)
  have 1: "reports [?a] = [Print ''Article with trackers found: https://a.com/x?utm=1'']"
    using reports_snoc [of "[]" ?a] by (simp add: 0 demo_urls report_def)
  have 2: "reports [?a, ?b] = [Print ''Article with trackers found: https://a.com/x?utm=1'',
      Print ''Duplicate article found: https://a.com/x'']"
    using reports_snoc [of "[?a]" ?b] by (simp add: 1 demo_urls report_def)
  have 3: "reports [?a, ?b, ?c] = [Print ''Article with trackers found: https://a.com/x?utm=1'',
      Print ''Duplicate article found: https://a.com/x'']"
    using reports_snoc [of "[?a, ?b]" ?c] by (simp add: 2 demo_urls report_def)
  then show ?thesis by (simp add: demo_items_def)
qed

lemma strip_examples: "strip '' y'' = ''y''" "strip ''Y'' = ''Y''" "strip ''n '' = ''n''"
  by (simp_all add: strip_def isspace_def)

lemma earlier_take:
  assumes "j \<le> length items"
  shows "y \<in> norm_url ` set (take j items) \<longleftrightarrow> (\<exists>i<j. norm_url (items ! i) = y)"
proof -
  from assms have len: "length (take j items) = j" by simp
  have "y \<in> norm_url ` set (take j items)
          \<longleftrightarrow> (\<exists>i<length (take j items). norm_url (take j items ! i) = y)"
    by (rule earlier_in_set [symmetric])
  also have "\<dots> \<longleftrightarrow> (\<exists>i<j. norm_url (items ! i) = y)"
    unfolding len by auto
  finally show ?thesis .
qed

lemma cache_at_position:
  assumes "PocketInstance G = Some g" and "j \<le> length items"
  shows "\<exists>cj wj. scan G (take j items) [] w = (Inr cj, wj)
           \<and> scan G items [] w = scan G (drop j items) cj wj
           \<and> (\<forall>y. y \<in> set cj \<longleftrightarrow> (\<exists>i<j. norm_url (items ! i) = y))"
proof -
  from scan_take_drop [OF assms(1), of j items w] obtain cj wj
    where s: "scan G (take j items) [] w = (Inr cj, wj)"
      "cj = firsts (map norm_url (take j items))"
      "scan G items [] w = scan G (drop j items) cj wj"
    by blast
  have "y \<in> set cj \<longleftrightarrow> (\<exists>i<j. norm_url (items ! i) = y)" for y
    using earlier_take [OF assms(2), of y] by (simp add: s(2) set_firsts)
  with s(1,3) show ?thesis by blast
qed

lemma visit_bound_effect:
  assumes "PocketInstance G = Some g"
  shows "\<exists>w'. visit G it c w = (Inr (if norm_url it \<in> set c then c else c @ [norm_url it]), w')
           \<and> calls (heap w' g) = calls (heap w g)
                 @ (if norm_url it \<in> set c then [Delete (item_id it)] else [])
           \<and> (\<forall>q. q \<noteq> g \<longrightarrow> heap w' q = heap w q)
           \<and> console w' = console w @ report (norm_url it \<in> set c) it"
  unfolding visit_bound [OF assms] by (simp add: heap_extend console_extend)

lemma visit_fresh:
  assumes "norm_url it \<notin> set c"
  shows "visit G it c w = (Inr (c @ [norm_url it]),
      if norm_url it \<noteq> given_url it
      then print (''Article with trackers found: '' @ given_url it) w else w)"
  using assms by (simp add: visit_def Let_def)

lemma demo_reordered_nth:
  "demo_reordered ! 0 = \<lparr>item_id = ''3'', given_url = ''https://b.com/y''\<rparr>"
  "demo_reordered ! 1 = \<lparr>item_id = ''1'', given_url = ''https://a.com/x?utm=1''\<rparr>"
  "demo_reordered ! Suc 0 = \<lparr>item_id = ''1'', given_url = ''https://a.com/x?utm=1''\<rparr>"
  "length demo_reordered = 3"
  by (simp_all add: demo_reordered_def)

lemma found_0: "''Found '' @ str_of_nat 0 @ '' articles.'' = ''Found 0 articles.''"
  by code_simp

lemma queue_dedupe_actions_empty:
  assumes "saved (heap w r) = []"
  shows "queue_dedupe_actions G r w =
     (Inr (), print ''Found 0 articles.'' (invoke r (Get ''all'' ''oldest'') w))"
  using assms found_0 by (simp add: queue_dedupe_actions_def Let_def saved_invoke)

lemma main_bound:
  "main r line w =
     (Inr (),
      \<lparr>heap = (heap w)(r := (heap w r)\<lparr>calls := calls (heap w r)
           @ Get ''all'' ''oldest'' # map Delete (dup_ids (saved (heap w r)))
           @ (if strip line = ''y'' then [Commit] else [])\<rparr>),
       console = console w
           @ Print (''Found '' @ str_of_nat (length (saved (heap w r))) @ '' articles.'')
             # reports (saved (heap w r))
           @ [Input confirm_prompt,
              if strip line = ''y''
              then Print (''Request sent. Response: '' @ reply (heap w r))
              else Print (''Received input '' @ [CHR 0x27] @ strip line @ [CHR 0x27]
                           @ ''. Modify request has not been sent.''),
              Print ''The script has finished running.'']\<rparr>)"
proof -
  have "PocketInstance \<lparr>PocketInstance = Some r\<rparr> = Some r" by simp
  from queue_dedupe_actions_bound [OF this, of r w] show ?thesis
    unfolding main_result
    by (simp add: Let_def invoke_def print_def extend_def)
qed

lemma found_3: "''Found '' @ str_of_nat 3 @ '' articles.'' = ''Found 3 articles.''"
  by code_simp

lemma demo_world_fields:
  "saved (heap demo_world r) = demo_items" "calls (heap demo_world r) = []"
  "reply (heap demo_world r) = ''ok''" "console demo_world = []"
  "length demo_items = 3"
  by (simp_all add: demo_world_def demo_items_def)

lemma queue_dedupe_actions_unbound_demo:
  "queue_dedupe_actions \<lparr>PocketInstance = None\<rparr> 0 demo_world =
     (Inl (NameError ''PocketInstance''),
      print ''Duplicate article found: https://a.com/x''
        (print ''Article with trackers found: https://a.com/x?utm=1''
          (print (''Found '' @ str_of_nat (length demo_items) @ '' articles.'')
            (invoke 0 (Get ''all'' ''oldest'') demo_world))))"
  by (simp add: queue_dedupe_actions_def Let_def saved_invoke demo_world_fields
      demo_items_def visit_def demo_urls)

lemma scan_step:
  assumes "j < length items" and "scan G items [] w = scan G (drop j items) cj wj"
    and "visit G (items ! j) cj wj = (Inr c', wj')"
  shows "scan G items [] w = scan G (drop (Suc j) items) c' wj'"
proof -
  from assms(1) have "drop j items = items ! j # drop (Suc j) items"
    by (simp add: Cons_nth_drop_Suc)
  with assms(2,3) show ?thesis by simp
qed

lemma delete_not_queued:
  assumes "distinct (map item_id items)" and "j < length items"
    and "j \<notin> set (dup_positions items)"
  shows "Delete (item_id (items ! j)) \<notin> set (map Delete (dup_ids items))"
proof
  assume "Delete (item_id (items ! j)) \<in> set (map Delete (dup_ids items))"
  then have "item_id (items ! j) \<in> set (dup_ids items)" by auto
  then obtain k where k: "k \<in> set (dup_positions items)" "item_id (items ! k) = item_id (items ! j)"
    by (auto simp: dup_ids_def)
  from k(1) have kl: "k < length items" by (rule dup_positions_bound)
  from k(2) kl assms(2) have eq: "map item_id items ! k = map item_id items ! j" by simp
  from kl have kl': "k < length (map item_id items)" by simp
  from assms(2) have jl': "j < length (map item_id items)" by simp
  from nth_eq_iff_index_eq [OF assms(1) kl' jl'] eq have "k = j" by (rule iffD1)
  with k(1) assms(3) show False by simp
qed

lemma dup_ids_reordered: "dup_ids demo_reordered = [''2'']"
proof -
  let ?c = "\<lparr>item_id = ''3'', given_url = ''https://b.com/y''\<rparr>"
  let ?a = "\<lparr>item_id = ''1'', given_url = ''https://a.com/x?utm=1''\<rparr>"
  let ?b = "\<lparr>item_id = ''2'', given_url = ''https://a.com/x''\<rparr>"
  have 0: "dup_ids [] = []" by (simp add: dup_ids_def dup_positions_def)
  have 1: "dup_ids [?c] = []" using dup_ids_snoc [of "[]" ?c] by (simp add: 0)
  have 2: "dup_ids [?c, ?a] = []" using dup_ids_snoc [of "[?c]" ?a] by (simp add: 1 demo_urls)
  have 3: "dup_ids [?c, ?a, ?b] = [''2'']"
    using dup_ids_snoc [of "[?c, ?a]" ?b] by (simp add: 2 demo_urls)
  then show ?thesis by (simp add: demo_reordered_def)
qed

section \<open>Claims about the function and the script\<close>

text \<open>
  Claim C1. In a scan of any listing (with the global name bound to a client object \<open>g\<close>,
  as in the script) the deletions queued are, in order, the ids of the records whose
  normalised URL is the normalised URL of an earlier record of the listing, so the set of
  ids flagged and queued is exactly the set of such ids. Equivalently, at every position
  \<open>j\<close> the cache with which the record is visited (the one the scan of the first \<open>j\<close>
  records leaves) contains the record's normalised URL iff an earlier record has it, and
  the visit prints the duplicate line and queues the deletion iff the normalised URL is in
  that cache.
\<close>

theorem scan_deletes_exactly_repeats:
  assumes "PocketInstance G = Some g"
  shows "\<exists>c w' ids. scan G items [] w = (Inr c, w')
     \<and> calls (heap w' g) = calls (heap w g) @ map Delete ids
     \<and> ids = map (\<lambda>j. item_id (items ! j))
               (filter (\<lambda>j. \<exists>i<j. norm_url (items ! i) = norm_url (items ! j)) [0..<length items])
     \<and> set ids = {item_id (items ! j) | j.
                    j < length items \<and> (\<exists>i<j. norm_url (items ! i) = norm_url (items ! j))}
     \<and> (\<forall>j<length items. \<exists>cj wj wj'.
           scan G (take j items) [] w = (Inr cj, wj)
         \<and> scan G items [] w = scan G (drop j items) cj wj
         \<and> (norm_url (items ! j) \<in> set cj
              \<longleftrightarrow> (\<exists>i<j. norm_url (items ! i) = norm_url (items ! j)))
         \<and> visit G (items ! j) cj wj
             = (Inr (if norm_url (items ! j) \<in> set cj then cj else cj @ [norm_url (items ! j)]), wj')
         \<and> calls (heap wj' g) = calls (heap wj g)
             @ (if norm_url (items ! j) \<in> set cj then [Delete (item_id (items ! j))] else [])
         \<and> console wj' = console wj @ report (norm_url (items ! j) \<in> set cj) (items ! j))"
proof -
  let ?ids = "map (\<lambda>j. item_id (items ! j))
               (filter (\<lambda>j. \<exists>i<j. norm_url (items ! i) = norm_url (items ! j)) [0..<length items])"
  have ids: "dup_ids items = ?ids" by (simp add: dup_ids_def dup_positions_def)
  have a: "scan G items [] w
      = (Inr (firsts (map norm_url items)), extend g (map Delete ?ids) (reports items) w)"
    using scan_bound [OF assms, of items w] by (simp only: ids)
  have b: "calls (heap (extend g (map Delete ?ids) (reports items) w) g)
      = calls (heap w g) @ map Delete ?ids"
    by (simp add: heap_extend)
  have c: "set ?ids = {item_id (items ! j) | j.
                    j < length items \<and> (\<exists>i<j. norm_url (items ! i) = norm_url (items ! j))}"
    by auto
  have d: "\<exists>cj wj wj'.
           scan G (take j items) [] w = (Inr cj, wj)
         \<and> scan G items [] w = scan G (drop j items) cj wj
         \<and> (norm_url (items ! j) \<in> set cj
              \<longleftrightarrow> (\<exists>i<j. norm_url (items ! i) = norm_url (items ! j)))
         \<and> visit G (items ! j) cj wj
             = (Inr (if norm_url (items ! j) \<in> set cj then cj else cj @ [norm_url (items ! j)]), wj')
         \<and> calls (heap wj' g) = calls (heap wj g)
             @ (if norm_url (items ! j) \<in> set cj then [Delete (item_id (items ! j))] else [])
         \<and> console wj' = console wj @ report (norm_url (items ! j) \<in> set cj) (items ! j)"
    if j: "j < length items" for j
  proof -
    from j have "j \<le> length items" by simp
    from cache_at_position [OF assms this, of w] obtain cj wj
      where p: "scan G (take j items) [] w = (Inr cj, wj)"
        "scan G items [] w = scan G (drop j items) cj wj"
        "\<forall>y. y \<in> set cj \<longleftrightarrow> (\<exists>i<j. norm_url (items ! i) = y)"
      by blast
    from visit_bound_effect [OF assms, of "items ! j" cj wj] obtain wj'
      where v: "visit G (items ! j) cj wj
             = (Inr (if norm_url (items ! j) \<in> set cj then cj else cj @ [norm_url (items ! j)]), wj')"
        "calls (heap wj' g) = calls (heap wj g)
             @ (if norm_url (items ! j) \<in> set cj then [Delete (item_id (items ! j))] else [])"
        "console wj' = console wj @ report (norm_url (items ! j) \<in> set cj) (items ! j)"
      by blast
    from p(3) have "norm_url (items ! j) \<in> set cj
              \<longleftrightarrow> (\<exists>i<j. norm_url (items ! i) = norm_url (items ! j))" by blast
    with p(1,2) v show ?thesis by blast
  qed
  from a b c d show ?thesis by blast
qed

theorem scan_deletes_exactly_repeats_witness:
  "PocketInstance \<lparr>PocketInstance = Some 0\<rparr> = Some 0
   \<and> (\<exists>c w'. scan \<lparr>PocketInstance = Some 0\<rparr> demo_items [] demo_world = (Inr c, w')
          \<and> calls (heap w' 0) = [Delete ''2''])"
proof -
  have h: "PocketInstance \<lparr>PocketInstance = Some 0\<rparr> = Some 0" by simp
  from scan_deletes_exactly_repeats [OF h, of demo_items demo_world] obtain c w' ids
    where s: "scan \<lparr>PocketInstance = Some 0\<rparr> demo_items [] demo_world = (Inr c, w')"
      and q: "calls (heap w' 0) = calls (heap demo_world 0) @ map Delete ids"
      and i: "ids = map (\<lambda>j. item_id (demo_items ! j))
               (filter (\<lambda>j. \<exists>i<j. norm_url (demo_items ! i) = norm_url (demo_items ! j))
                  [0..<length demo_items])"
    by (elim exE conjE) (rule that)
  from i have "ids = dup_ids demo_items" by (simp only: dup_ids_def dup_positions_def)
  then have "ids = [''2'']" by (simp only: dup_ids_demo)
  with q have "calls (heap w' 0) = [Delete ''2'']" by (simp add: demo_world_def)
  with s have "\<exists>c w'. scan \<lparr>PocketInstance = Some 0\<rparr> demo_items [] demo_world = (Inr c, w')
          \<and> calls (heap w' 0) = [Delete ''2'']" by (intro exI conjI)
  with h show ?thesis by (rule conjI)
qed

text \<open>
  Claim C5. A record that is the earliest of its group (no earlier record of the listing
  has its normalised URL) is visited once, with a cache that does not contain its
  normalised URL: the visit queues nothing (the store is unchanged), prints no duplicate
  line (at most the tracked-URL line), appends the normalised URL to the cache, and the
  scan goes on with the records after it. Over the whole scan the deletions queued are
  those of the positions that repeat an earlier normalised URL, the position of the
  record is not one of them, and no other object receives a call; so, the ids of the
  listing being pairwise distinct (they are the keys of the response), no deletion of the
  record's id is queued on any object by the scan.
\<close>

theorem first_of_group_not_flagged:
  assumes "PocketInstance G = Some g" and "j < length items"
    and "\<forall>i<j. norm_url (items ! i) \<noteq> norm_url (items ! j)"
  shows "\<exists>cj wj wj' c w'. scan G (take j items) [] w = (Inr cj, wj)
           \<and> scan G items [] w = scan G (drop j items) cj wj
           \<and> norm_url (items ! j) \<notin> set cj
           \<and> visit G (items ! j) cj wj = (Inr (cj @ [norm_url (items ! j)]), wj')
           \<and> heap wj' = heap wj
           \<and> console wj' = console wj
               @ (if norm_url (items ! j) \<noteq> given_url (items ! j)
                  then [Print (''Article with trackers found: '' @ given_url (items ! j))]
                  else [])
           \<and> scan G items [] w = scan G (drop (Suc j) items) (cj @ [norm_url (items ! j)]) wj'
           \<and> scan G items [] w = (Inr c, w')
           \<and> calls (heap w' g) = calls (heap w g)
               @ map (\<lambda>k. Delete (item_id (items ! k)))
                   (filter (\<lambda>k. \<exists>i<k. norm_url (items ! i) = norm_url (items ! k))
                      [0..<length items])
           \<and> j \<notin> set (filter (\<lambda>k. \<exists>i<k. norm_url (items ! i) = norm_url (items ! k))
                        [0..<length items])
           \<and> (\<forall>q. q \<noteq> g \<longrightarrow> heap w' q = heap w q)
           \<and> (distinct (map item_id items) \<longrightarrow>
                (\<forall>q. Delete (item_id (items ! j))
                       \<notin> set (drop (length (calls (heap w q))) (calls (heap w' q)))))"
proof -
  from assms(2) have "j \<le> length items" by simp
  from cache_at_position [OF assms(1) this, of w] obtain cj wj
    where p: "scan G (take j items) [] w = (Inr cj, wj)"
      "scan G items [] w = scan G (drop j items) cj wj"
      "\<forall>y. y \<in> set cj \<longleftrightarrow> (\<exists>i<j. norm_url (items ! i) = y)"
    by blast
  from p(3) assms(3) have fresh: "norm_url (items ! j) \<notin> set cj" by blast
  let ?wj' = "if norm_url (items ! j) \<noteq> given_url (items ! j)
      then print (''Article with trackers found: '' @ given_url (items ! j)) wj else wj"
  have v: "visit G (items ! j) cj wj = (Inr (cj @ [norm_url (items ! j)]), ?wj')"
    using fresh by (rule visit_fresh)
  have hp: "heap ?wj' = heap wj" by (simp add: print_def)
  have co: "console ?wj' = console wj
      @ (if norm_url (items ! j) \<noteq> given_url (items ! j)
         then [Print (''Article with trackers found: '' @ given_url (items ! j))]
         else [])"
    by (simp add: print_def)
  have st: "scan G items [] w = scan G (drop (Suc j) items) (cj @ [norm_url (items ! j)]) ?wj'"
    using assms(2) p(2) v by (rule scan_step)
  let ?c = "firsts (map norm_url items)"
  let ?w' = "extend g (map Delete (dup_ids items)) (reports items) w"
  have whole: "scan G items [] w = (Inr ?c, ?w')" by (rule scan_bound [OF assms(1)])
  have ids: "map Delete (dup_ids items)
      = map (\<lambda>k. Delete (item_id (items ! k)))
          (filter (\<lambda>k. \<exists>i<k. norm_url (items ! i) = norm_url (items ! k)) [0..<length items])"
    by (simp add: dup_ids_def dup_positions_def)
  have cl: "calls (heap ?w' g) = calls (heap w g)
      @ map (\<lambda>k. Delete (item_id (items ! k)))
          (filter (\<lambda>k. \<exists>i<k. norm_url (items ! i) = norm_url (items ! k)) [0..<length items])"
    by (simp only: heap_extend ids) simp
  have np: "j \<notin> set (filter (\<lambda>k. \<exists>i<k. norm_url (items ! i) = norm_url (items ! k))
                        [0..<length items])"
    using assms(3) by simp
  have ot: "\<forall>q. q \<noteq> g \<longrightarrow> heap ?w' q = heap w q" by (simp add: heap_extend)
  have nd: "distinct (map item_id items) \<longrightarrow>
      (\<forall>q. Delete (item_id (items ! j))
             \<notin> set (drop (length (calls (heap w q))) (calls (heap ?w' q))))"
  proof (intro impI allI)
    fix q assume d: "distinct (map item_id items)"
    have "j \<notin> set (dup_positions items)" unfolding dup_positions_def by (rule np)
    from delete_not_queued [OF d assms(2) this]
    have "Delete (item_id (items ! j)) \<notin> set (map Delete (dup_ids items))" .
    then show "Delete (item_id (items ! j))
             \<notin> set (drop (length (calls (heap w q))) (calls (heap ?w' q)))"
      by (cases "q = g") (simp_all add: heap_extend)
  qed
  from p(1,2) fresh v hp co st whole cl np ot nd show ?thesis
    by (intro exI conjI)
qed

theorem first_of_group_not_flagged_witness:
  "PocketInstance \<lparr>PocketInstance = Some 0\<rparr> = Some 0
   \<and> 1 < length demo_reordered
   \<and> norm_url (demo_reordered ! 0) \<noteq> norm_url (demo_reordered ! 1)
   \<and> distinct (map item_id demo_reordered)
   \<and> (\<exists>cj wj wj' c w'.
         scan \<lparr>PocketInstance = Some 0\<rparr> (take 1 demo_reordered) [] demo_world = (Inr cj, wj)
       \<and> ''https://a.com/x'' \<notin> set cj
       \<and> visit \<lparr>PocketInstance = Some 0\<rparr> (demo_reordered ! 1) cj wj
           = (Inr (cj @ [''https://a.com/x'']), wj')
       \<and> heap wj' = heap wj
       \<and> console wj' = console wj
           @ [Print ''Article with trackers found: https://a.com/x?utm=1'']
       \<and> scan \<lparr>PocketInstance = Some 0\<rparr> demo_reordered [] demo_world = (Inr c, w')
       \<and> calls (heap w' 0) = [Delete ''2'']
       \<and> (\<forall>q. Delete ''1'' \<notin> set (drop (length (calls (heap demo_world q))) (calls (heap w' q)))))"
proof -
  let ?G = "\<lparr>PocketInstance = Some 0\<rparr>"
  have h1: "PocketInstance ?G = Some 0" by simp
  have h2: "1 < length demo_reordered" by (simp add: demo_reordered_nth)
  have h3: "norm_url (demo_reordered ! 0) \<noteq> norm_url (demo_reordered ! 1)"
    by (simp add: demo_reordered_nth demo_urls)
  then have h3': "\<forall>i<1. norm_url (demo_reordered ! i) \<noteq> norm_url (demo_reordered ! 1)"
    by simp
  have d: "distinct (map item_id demo_reordered)" by (simp add: demo_reordered_def)
  have n1: "norm_url (demo_reordered ! 1) = ''https://a.com/x''"
    by (simp add: demo_reordered_nth demo_urls)
  have g1: "given_url (demo_reordered ! 1) = ''https://a.com/x?utm=1''"
    by (simp add: demo_reordered_nth)
  have i1: "item_id (demo_reordered ! 1) = ''1''" by (simp add: demo_reordered_nth)
  from first_of_group_not_flagged [OF h1 h2 h3', of demo_world] obtain cj wj wj' c w'
    where f: "scan ?G (take 1 demo_reordered) [] demo_world = (Inr cj, wj)"
      "norm_url (demo_reordered ! 1) \<notin> set cj"
      "visit ?G (demo_reordered ! 1) cj wj = (Inr (cj @ [norm_url (demo_reordered ! 1)]), wj')"
      "heap wj' = heap wj"
      "console wj' = console wj
         @ (if norm_url (demo_reordered ! 1) \<noteq> given_url (demo_reordered ! 1)
            then [Print (''Article with trackers found: '' @ given_url (demo_reordered ! 1))]
            else [])"
      "scan ?G demo_reordered [] demo_world = (Inr c, w')"
      "calls (heap w' 0) = calls (heap demo_world 0)
         @ map (\<lambda>k. Delete (item_id (demo_reordered ! k)))
             (filter (\<lambda>k. \<exists>i<k. norm_url (demo_reordered ! i) = norm_url (demo_reordered ! k))
                [0..<length demo_reordered])"
      "distinct (map item_id demo_reordered) \<longrightarrow>
         (\<forall>q. Delete (item_id (demo_reordered ! 1))
                \<notin> set (drop (length (calls (heap demo_world q))) (calls (heap w' q))))"
    by (elim exE conjE) (rule that)
  have a: "''https://a.com/x'' \<notin> set cj" using f(2) unfolding n1 .
  have b: "visit ?G (demo_reordered ! 1) cj wj = (Inr (cj @ [''https://a.com/x'']), wj')"
    using f(3) unfolding n1 .
  from f(5) have c: "console wj' = console wj
      @ [Print ''Article with trackers found: https://a.com/x?utm=1'']"
    by (simp add: demo_reordered_nth demo_urls)
  have "map (\<lambda>k. Delete (item_id (demo_reordered ! k)))
             (filter (\<lambda>k. \<exists>i<k. norm_url (demo_reordered ! i) = norm_url (demo_reordered ! k))
                [0..<length demo_reordered]) = map Delete (dup_ids demo_reordered)"
    by (simp add: dup_ids_def dup_positions_def)
  with f(7) have e: "calls (heap w' 0) = [Delete ''2'']"
    by (simp add: dup_ids_reordered demo_world_def)
  have g: "\<forall>q. Delete ''1'' \<notin> set (drop (length (calls (heap demo_world q))) (calls (heap w' q)))"
    using f(8) [THEN mp, OF d] unfolding i1 .
  from f(1) a b f(4) c f(6) e g
  have "\<exists>cj wj wj' c w'.
         scan ?G (take 1 demo_reordered) [] demo_world = (Inr cj, wj)
       \<and> ''https://a.com/x'' \<notin> set cj
       \<and> visit ?G (demo_reordered ! 1) cj wj = (Inr (cj @ [''https://a.com/x'']), wj')
       \<and> heap wj' = heap wj
       \<and> console wj' = console wj
           @ [Print ''Article with trackers found: https://a.com/x?utm=1'']
       \<and> scan ?G demo_reordered [] demo_world = (Inr c, w')
       \<and> calls (heap w' 0) = [Delete ''2'']
       \<and> (\<forall>q. Delete ''1'' \<notin> set (drop (length (calls (heap demo_world q))) (calls (heap w' q))))"
    by (intro exI conjI)
  with h1 h2 h3 d show ?thesis by (intro conjI)
qed

text \<open>
  Claim C8. When the listing is empty, \<^verbatim>\<open>queue_dedupe_actions\<close> ends normally,
  whatever the global name is bound to; it prints \<^verbatim>\<open>Found 0 articles.\<close> and nothing else
  (no duplicate is flagged), no object receives a call other than the \<^verbatim>\<open>get\<close> on the
  object passed in, and in the script the confirmation prompt comes next on the console;
  no deletion is queued on any object by the end of the script either.
\<close>

theorem empty_listing_scan:
  assumes "saved (heap w r) = []"
  shows "\<exists>w1 w'. queue_dedupe_actions G r w = (Inr (), w1)
           \<and> console w1 = console w @ [Print ''Found 0 articles.'']
           \<and> (\<forall>q. calls (heap w1 q)
                  = calls (heap w q) @ (if q = r then [Get ''all'' ''oldest''] else []))
           \<and> main r line w = (Inr (), w')
           \<and> take (length (console w) + 2) (console w')
               = console w @ [Print ''Found 0 articles.'', Input confirm_prompt]
           \<and> (\<forall>q i. Delete i \<notin> set (drop (length (calls (heap w q))) (calls (heap w' q))))"
proof -
  let ?w1 = "print ''Found 0 articles.'' (invoke r (Get ''all'' ''oldest'') w)"
  have a: "queue_dedupe_actions G r w = (Inr (), ?w1)" for G
    using assms by (rule queue_dedupe_actions_empty)
  have b: "console ?w1 = console w @ [Print ''Found 0 articles.'']"
    by (simp add: print_def invoke_def)
  have c: "calls (heap ?w1 q) = calls (heap w q) @ (if q = r then [Get ''all'' ''oldest''] else [])"
    for q by (simp add: print_def invoke_def)
  obtain w' where m: "main r line w = (Inr (), w')" by (simp add: main_result)
  have m': "w' = print ''The script has finished running.''
        (let w2 = ?w1\<lparr>console := console ?w1 @ [Input confirm_prompt]\<rparr>
         in if strip line = ''y''
            then print (''Request sent. Response: '' @ reply (heap w2 r)) (invoke r Commit w2)
            else print (''Received input '' @ [CHR 0x27] @ strip line @ [CHR 0x27]
                         @ ''. Modify request has not been sent.'') w2)"
    using m unfolding main_result a by (simp add: Let_def)
  have d: "take (length (console w) + 2) (console w')
               = console w @ [Print ''Found 0 articles.'', Input confirm_prompt]"
    unfolding m' by (simp add: Let_def print_def invoke_def)
  have e: "Delete i \<notin> set (drop (length (calls (heap w q))) (calls (heap w' q)))" for q i
    unfolding m' by (simp add: Let_def print_def invoke_def)
  from a [of G] b c m d e show ?thesis by (intro exI conjI allI)
qed

theorem empty_listing_scan_witness:
  "saved (heap empty_world 0) = []
   \<and> (\<exists>w1 w'. queue_dedupe_actions \<lparr>PocketInstance = None\<rparr> 0 empty_world = (Inr (), w1)
           \<and> console w1 = console empty_world @ [Print ''Found 0 articles.'']
           \<and> (\<forall>q. calls (heap w1 q)
                  = calls (heap empty_world q) @ (if q = 0 then [Get ''all'' ''oldest''] else []))
           \<and> main 0 ''n'' empty_world = (Inr (), w')
           \<and> take (length (console empty_world) + 2) (console w')
               = console empty_world @ [Print ''Found 0 articles.'', Input confirm_prompt]
           \<and> (\<forall>q i. Delete i \<notin> set (drop (length (calls (heap empty_world q))) (calls (heap w' q)))))"
proof -
  have h: "saved (heap empty_world 0) = []" by (simp add: empty_world_def)
  show ?thesis by (rule conjI [OF h empty_listing_scan [OF h]])
qed

text \<open>
  Claim C4, as amended. The script ends normally for every confirmation line, and it
  calls \<^verbatim>\<open>commit\<close> iff the line with the white space at its two ends stripped is
  exactly \<^verbatim>\<open>y\<close> (case-sensitive). For every other line no call follows the scan (the
  store is as the scan left it), and the stripped line is what the script reports.
\<close>

theorem commit_iff_stripped_input_is_y:
  "\<exists>w'. main r line w = (Inr (), w')
     \<and> heap w' = (heap w)(r := (heap w r)\<lparr>calls := calls (heap w r)
           @ Get ''all'' ''oldest'' # map Delete (dup_ids (saved (heap w r)))
           @ (if strip line = ''y'' then [Commit] else [])\<rparr>)
     \<and> (Commit \<in> set (drop (length (calls (heap w r))) (calls (heap w' r)))
          \<longleftrightarrow> strip line = ''y'')
     \<and> console w' = console w
           @ Print (''Found '' @ str_of_nat (length (saved (heap w r))) @ '' articles.'')
             # reports (saved (heap w r))
           @ [Input confirm_prompt,
              if strip line = ''y''
              then Print (''Request sent. Response: '' @ reply (heap w r))
              else Print (''Received input '' @ [CHR 0x27] @ strip line @ [CHR 0x27]
                           @ ''. Modify request has not been sent.''),
              Print ''The script has finished running.'']"
  unfolding main_bound by auto

text \<open>
  Claim C4 as the specification states it fails: lines 167 to 169 compare the stripped
  input. The input \<^verbatim>\<open>" y"\<close> is not the single character \<^verbatim>\<open>y\<close>, and the commit is made;
  for the input \<^verbatim>\<open>"n "\<close> the script reports \<^verbatim>\<open>n\<close>, not the literal input.
\<close>

theorem commit_on_padded_y:
  "'' y'' \<noteq> ''y''
   \<and> calls (heap (snd (main 0 '' y'' demo_world)) 0)
       = [Get ''all'' ''oldest'', Delete ''2'', Commit]
   \<and> ''n '' \<noteq> ''n''
   \<and> console (snd (main 0 ''n '' demo_world))
       = [Print ''Found 3 articles.'',
          Print ''Article with trackers found: https://a.com/x?utm=1'',
          Print ''Duplicate article found: https://a.com/x'',
          Input confirm_prompt,
          Print (''Received input '' @ [CHR 0x27] @ ''n'' @ [CHR 0x27]
                  @ ''. Modify request has not been sent.''),
          Print ''The script has finished running.'']"
  using found_3
  by (simp add: main_bound demo_world_fields dup_ids_demo reports_demo strip_examples)

text \<open>
  Claim C2 does not hold of the code: line 148 calls \<^verbatim>\<open>delete\<close> on the global name
  \<^verbatim>\<open>PocketInstance\<close>, not on the parameter \<^verbatim>\<open>pocket_instance\<close>. With the object at 0
  passed in and the global name bound to the object at 1, the object passed in receives
  the \<^verbatim>\<open>get\<close> only and the deletion of the duplicate is queued on the other object; with
  the global name unbound the first duplicate raises \<^verbatim>\<open>NameError\<close> and nothing is
  queued on the object passed in.
\<close>

theorem deletion_queued_on_global_binding:
  "calls (heap (snd (queue_dedupe_actions \<lparr>PocketInstance = Some 1\<rparr> 0 demo_world)) 0)
     = [Get ''all'' ''oldest'']
   \<and> calls (heap (snd (queue_dedupe_actions \<lparr>PocketInstance = Some 1\<rparr> 0 demo_world)) 1)
     = [Delete ''2'']
   \<and> fst (queue_dedupe_actions \<lparr>PocketInstance = None\<rparr> 0 demo_world)
     = Inl (NameError ''PocketInstance'')
   \<and> calls (heap (snd (queue_dedupe_actions \<lparr>PocketInstance = None\<rparr> 0 demo_world)) 0)
     = [Get ''all'' ''oldest'']"
proof -
  have h: "PocketInstance \<lparr>PocketInstance = Some 1\<rparr> = Some 1" by simp
  have a: "calls (heap (snd (queue_dedupe_actions \<lparr>PocketInstance = Some 1\<rparr> 0 demo_world)) 0)
     = [Get ''all'' ''oldest'']"
    unfolding queue_dedupe_actions_bound [OF h]
    by (simp add: heap_extend print_def invoke_def demo_world_fields)
  have b: "calls (heap (snd (queue_dedupe_actions \<lparr>PocketInstance = Some 1\<rparr> 0 demo_world)) 1)
     = [Delete ''2'']"
    unfolding queue_dedupe_actions_bound [OF h]
    by (simp add: heap_extend print_def invoke_def demo_world_fields dup_ids_demo)
  have c: "fst (queue_dedupe_actions \<lparr>PocketInstance = None\<rparr> 0 demo_world)
     = Inl (NameError ''PocketInstance'')"
    unfolding queue_dedupe_actions_unbound_demo by simp
  have d: "calls (heap (snd (queue_dedupe_actions \<lparr>PocketInstance = None\<rparr> 0 demo_world)) 0)
     = [Get ''all'' ''oldest'']"
    unfolding queue_dedupe_actions_unbound_demo
    by (simp add: print_def invoke_def demo_world_fields)
  from a b c d show ?thesis by (intro conjI)
qed

end
